theory Spec2Isabelle
  imports Main
begin

section \<open>Text primitives of the Python runtime\<close>

text \<open>
  Text is a list of characters. HOL's \<^typ>\<open>char\<close> has 256 values, read here as the code
  points 0 to 255; the work file and the URLs of a Slack export are ASCII, so nothing the
  program does is lost. The predicates below follow Python's \<^verbatim>\<open>str\<close> methods on that
  range.
\<close>

definition LF :: char where
  "LF = CHR 0x0A"

definition CR :: char where
  "CR = CHR 0x0D"

definition isspace :: "char \<Rightarrow> bool" where
  \<comment> \<open>\<^verbatim>\<open>str.isspace\<close> on one character: TAB, LF, VT, FF, CR, FS, GS, RS, US, space, NEL, NBSP.\<close>
  "isspace c =
     (let n = (of_char c :: nat)
      in (9 \<le> n \<and> n \<le> 13) \<or> (28 \<le> n \<and> n \<le> 32) \<or> n = 133 \<or> n = 160)"

definition isalnum :: "char \<Rightarrow> bool" where
  \<comment> \<open>\<^verbatim>\<open>str.isalnum\<close> on one character: digits and letters of ASCII, then the letters and
      numeric characters of the Latin-1 supplement.\<close>
  "isalnum c =
     (let n = (of_char c :: nat)
      in (48 \<le> n \<and> n \<le> 57) \<or> (65 \<le> n \<and> n \<le> 90) \<or> (97 \<le> n \<and> n \<le> 122)
         \<or> n = 170 \<or> n = 178 \<or> n = 179 \<or> n = 181 \<or> n = 185 \<or> n = 186
         \<or> (188 \<le> n \<and> n \<le> 190) \<or> (192 \<le> n \<and> n \<le> 214)
         \<or> (216 \<le> n \<and> n \<le> 246) \<or> (248 \<le> n \<and> n \<le> 255))"

definition strip :: "string \<Rightarrow> string" where
  \<comment> \<open>\<^verbatim>\<open>str.strip()\<close>: whitespace removed at both ends.\<close>
  "strip s = rev (dropWhile isspace (rev (dropWhile isspace s)))"

fun split_on :: "char \<Rightarrow> string \<Rightarrow> string list" where
  \<comment> \<open>\<^verbatim>\<open>s.split(c)\<close> for a one-character separator: never empty, \<^verbatim>\<open>"".split(c) == [""]\<close>.\<close>
  "split_on c [] = [[]]"
| "split_on c (x # xs) =
     (if x = c then [] # split_on c xs
      else (case split_on c xs of
              [] \<Rightarrow> [[x]]
            | l # ls \<Rightarrow> (x # l) # ls))"

fun rsplit_dot :: "string \<Rightarrow> string \<times> string" where
  \<comment> \<open>\<^verbatim>\<open>s.rsplit(".", 1)\<close> for a string that contains a dot: the text before the last dot
      and the text after it.\<close>
  "rsplit_dot s =
     (let ext = rev (takeWhile (\<lambda>c. c \<noteq> CHR ''.'') (rev s));
          stem = rev (drop 1 (dropWhile (\<lambda>c. c \<noteq> CHR ''.'') (rev s)))
      in (stem, ext))"

fun universal_newlines :: "string \<Rightarrow> string" where
  \<comment> \<open>Reading in text mode with \<^verbatim>\<open>newline=None\<close>: CR LF and a lone CR arrive as LF.\<close>
  "universal_newlines [] = []"
| "universal_newlines [c] = (if c = CR then [LF] else [c])"
| "universal_newlines (c # d # cs) =
     (if c = CR then (if d = LF then LF # universal_newlines cs
                      else LF # universal_newlines (d # cs))
      else c # universal_newlines (d # cs))"

definition file_lines :: "string \<Rightarrow> string list" where
  \<comment> \<open>The lines \<^verbatim>\<open>for line in f\<close> yields, each without its terminator. Python keeps the
      terminator and yields no empty piece after the last one; \<^verbatim>\<open>strip()\<close> and the
      emptiness test at the only use (source line 97) make both immaterial.\<close>
  "file_lines text = split_on LF (universal_newlines text)"

fun index_of :: "'a \<Rightarrow> 'a list \<Rightarrow> nat option" where
  \<comment> \<open>\<^verbatim>\<open>list.index\<close>: the first position, \<open>None\<close> where Python raises \<^verbatim>\<open>ValueError\<close>.\<close>
  "index_of x [] = None"
| "index_of x (y # ys) =
     (if x = y then Some 0
      else (case index_of x ys of None \<Rightarrow> None | Some i \<Rightarrow> Some (Suc i)))"

fun str_of_nat :: "nat \<Rightarrow> string" where
  \<comment> \<open>\<^verbatim>\<open>str(n)\<close> for a non-negative integer.\<close>
  "str_of_nat n =
     (if n < 10 then [char_of (48 + n)]
      else str_of_nat (n div 10) @ [char_of (48 + n mod 10)])"

section \<open>The environment\<close>

text \<open>
  What the program takes from outside itself is a parameter of the model:
  \<^item> \<open>urlparse_path\<close> is \<^verbatim>\<open>urllib.parse.urlparse(url).path\<close>, \<open>None\<close> where the
    library raises \<^verbatim>\<open>ValueError\<close> (a malformed bracketed host);
  \<^item> \<open>str_hash\<close> is the built-in \<^verbatim>\<open>hash\<close> on strings, which changes from one process
    to the next;
  \<^item> \<open>requests_get\<close> is the outcome of one pass through the \<^verbatim>\<open>try\<close> block of
    \<^verbatim>\<open>download_files_from_urls\<close> (source lines 258 to 271) for a URL, given
    everything the run has done before; the network may answer differently each time.
  Writing the work file and creating the download directory are taken to succeed.
\<close>

datatype error = ValueError

datatype attempt_result =
    Raised_before_open   \<comment> \<open>\<^verbatim>\<open>requests.get\<close>, \<^verbatim>\<open>raise_for_status\<close> or \<^verbatim>\<open>open\<close> raised\<close>
  | Raised_after_open    \<comment> \<open>the target file was created, then streaming the body raised\<close>
  | Completed            \<comment> \<open>the body was written to the target file\<close>

datatype event =
    Sleep_random               \<comment> \<open>\<^verbatim>\<open>time.sleep(random.uniform(1, 5))\<close>\<close>
  | Get string                 \<comment> \<open>\<^verbatim>\<open>requests.get(current_url, stream=True, timeout=30)\<close>\<close>
  | Sleep nat                  \<comment> \<open>\<^verbatim>\<open>time.sleep(wait_time)\<close>, in seconds\<close>
  | Write_work_file string     \<comment> \<open>the work file opened with mode \<^verbatim>\<open>"w"\<close> and written\<close>
  | Print_skipped nat          \<comment> \<open>the summary line of a batch of skips\<close>

record env =
  urlparse_path :: "string \<Rightarrow> string option"
  str_hash :: "string \<Rightarrow> int"
  requests_get :: "event list \<Rightarrow> string \<Rightarrow> attempt_result"

datatype textfile =
    Absent        \<comment> \<open>no file at the path\<close>
  | Unreadable    \<comment> \<open>opening or decoding the file raises\<close>
  | Text string   \<comment> \<open>the decoded content\<close>

section \<open>The URL Deduplicator and Namer: \<^verbatim>\<open>process_url_file\<close>\<close>

definition read_urls :: "string \<Rightarrow> string list" where
  \<comment> \<open>Source line 97: \<^verbatim>\<open>[line.strip() for line in f if line.strip()]\<close>.\<close>
  "read_urls text = map strip (filter (\<lambda>line. strip line \<noteq> []) (file_lines text))"

definition write_urls :: "string list \<Rightarrow> string" where
  \<comment> \<open>Source lines 177 to 178, 282 to 283 and 311 to 312: each URL, then a newline.\<close>
  "write_urls urls = concat (map (\<lambda>url. url @ [LF]) urls)"

definition remove_duplicates :: "string list \<Rightarrow> string list" where
  \<comment> \<open>Source lines 103 to 108: the loop over \<^verbatim>\<open>urls\<close> with the list \<^verbatim>\<open>unique_urls\<close>
      and the set \<^verbatim>\<open>seen\<close>.\<close>
  "remove_duplicates urls =
     fst (fold (\<lambda>url (unique_urls, seen).
                  if url \<notin> seen then (unique_urls @ [url], insert url seen)
                  else (unique_urls, seen))
               urls ([], {}))"

definition basename :: "string \<Rightarrow> string" where
  \<comment> \<open>\<^verbatim>\<open>os.path.basename\<close> of \<^verbatim>\<open>posixpath\<close>: the text after the last slash.\<close>
  "basename p = rev (takeWhile (\<lambda>c. c \<noteq> CHR ''/'') (rev p))"

definition filename_of_path :: "string \<Rightarrow> string" where
  \<comment> \<open>Source lines 117 to 131.\<close>
  "filename_of_path path =
     (let path_parts = split_on (CHR ''/'') path
      in case index_of ''download'' path_parts of
           Some download_index \<Rightarrow>
             if download_index < length path_parts - 1
             then path_parts ! (download_index + 1)
             else ''download.bin''
         | None \<Rightarrow>
             (let filename = basename path
              in if filename = [] then ''file.bin'' else filename))"

definition is_id_char :: "char \<Rightarrow> bool" where
  \<comment> \<open>The character class \<^verbatim>\<open>[A-Z0-9]\<close>.\<close>
  "is_id_char c =
     (let n = (of_char c :: nat) in (48 \<le> n \<and> n \<le> 57) \<or> (65 \<le> n \<and> n \<le> 90))"

definition id_match_here :: "string \<Rightarrow> string option" where
  \<comment> \<open>The pattern \<^verbatim>\<open>/([A-Z0-9]+)-([A-Z0-9]+)/download/\<close> matched at the start of the text;
      the result is group 2. Neither \<^verbatim>\<open>-\<close> nor \<^verbatim>\<open>/\<close> is in the class, so each group can
      only be the whole run of class characters and backtracking finds nothing else.\<close>
  "id_match_here s =
     (case s of
        [] \<Rightarrow> None
      | c # r \<Rightarrow>
          if c \<noteq> CHR ''/'' then None
          else (let g1 = takeWhile is_id_char r; r1 = dropWhile is_id_char r
                in if g1 = [] then None
                   else (case r1 of
                           [] \<Rightarrow> None
                         | d # r2 \<Rightarrow>
                             if d \<noteq> CHR ''-'' then None
                             else (let g2 = takeWhile is_id_char r2;
                                       r3 = dropWhile is_id_char r2
                                   in if g2 = [] then None
                                      else if take 10 r3 = ''/download/'' then Some g2
                                      else None))))"

fun id_search :: "string \<Rightarrow> string option" where
  \<comment> \<open>\<^verbatim>\<open>re.search\<close>: the match at the leftmost position that has one.\<close>
  "id_search [] = id_match_here []"
| "id_search (c # cs) =
     (case id_match_here (c # cs) of
        Some g \<Rightarrow> Some g
      | None \<Rightarrow> id_search cs)"

record url_info =
  url :: string
  original_filename :: string
  base_name :: string
  extension :: string
  file_id :: string

definition info_of_path :: "string \<Rightarrow> string \<Rightarrow> url_info" where
  \<comment> \<open>Source lines 117 to 159, after \<^verbatim>\<open>urlparse\<close> has returned.\<close>
  "info_of_path u path =
     (let filename = filename_of_path path;
          fid = (case id_search path of None \<Rightarrow> [] | Some g \<Rightarrow> ''-'' @ g);
          filename_parts =
            (if CHR ''.'' \<in> set filename then rsplit_dot filename else (filename, []));
          ext = (if snd filename_parts \<noteq> [] then ''.'' @ snd filename_parts else [])
      in \<lparr>url = u, original_filename = filename, base_name = fst filename_parts,
          extension = ext, file_id = fid\<rparr>)"

fun collect_url_info :: "env \<Rightarrow> string list \<Rightarrow> error + url_info list" where
  \<comment> \<open>Source lines 113 to 159: the loop stops where \<^verbatim>\<open>urlparse\<close> raises.\<close>
  "collect_url_info E [] = Inr []"
| "collect_url_info E (u # us) =
     (case urlparse_path E u of
        None \<Rightarrow> Inl ValueError
      | Some path \<Rightarrow>
          (case collect_url_info E us of
             Inl e \<Rightarrow> Inl e
           | Inr infos \<Rightarrow> Inr (info_of_path u path # infos)))"

definition unique_filename :: "url_info list \<Rightarrow> url_info \<Rightarrow> string" where
  \<comment> \<open>Source lines 162 and 168 to 171; \<^verbatim>\<open>filename_counter\<close> counts the original filenames.\<close>
  "unique_filename infos info =
     (if count_list (map original_filename infos) (original_filename info) > 1
      then base_name info @ file_id info @ extension info
      else original_filename info)"

definition build_mapping :: "url_info list \<Rightarrow> (string \<rightharpoonup> string)" where
  \<comment> \<open>Source lines 165 to 173.\<close>
  "build_mapping infos =
     fold (\<lambda>info m. m(url info \<mapsto> unique_filename infos info)) infos Map.empty"

record url_data =
  unique_urls :: "string list"
  filename_mapping :: "string \<rightharpoonup> string"

definition process_urls :: "env \<Rightarrow> string list \<Rightarrow> error + url_data" where
  \<comment> \<open>Source lines 102 to 173 and 191, from the lines read to the value returned.\<close>
  "process_urls E urls =
     (let uniq = remove_duplicates urls
      in case collect_url_info E uniq of
           Inl e \<Rightarrow> Inl e
         | Inr infos \<Rightarrow> Inr \<lparr>unique_urls = uniq, filename_mapping = build_mapping infos\<rparr>)"

definition process_url_file :: "env \<Rightarrow> textfile \<Rightarrow> error + (url_data \<times> textfile)" where
  \<comment> \<open>The value returned and the work file afterwards. A missing or unreadable file gives
      the empty result and is left alone; an exception of \<^verbatim>\<open>urlparse\<close> leaves before the
      write-back of line 176.\<close>
  "process_url_file E f =
     (case f of
        Absent \<Rightarrow> Inr (\<lparr>unique_urls = [], filename_mapping = Map.empty\<rparr>, Absent)
      | Unreadable \<Rightarrow> Inr (\<lparr>unique_urls = [], filename_mapping = Map.empty\<rparr>, Unreadable)
      | Text text \<Rightarrow>
          (case process_urls E (read_urls text) of
             Inl e \<Rightarrow> Inl e
           | Inr d \<Rightarrow> Inr (d, Text (write_urls (unique_urls d)))))"

section \<open>The Download Executor: \<^verbatim>\<open>download_files_from_urls\<close>\<close>

definition sanitize :: "string \<Rightarrow> string" where
  \<comment> \<open>Source line 239.\<close>
  "sanitize file_name = filter (\<lambda>c. isalnum c \<or> c \<in> set ''._- '') file_name"

definition resolve_file_name :: "env \<Rightarrow> (string \<rightharpoonup> string) \<Rightarrow> string \<Rightarrow> error + string" where
  \<comment> \<open>Source lines 230 to 239. \<^verbatim>\<open>not file_name\<close> holds for \<^verbatim>\<open>None\<close> and for the empty
      string; \<^verbatim>\<open>hash(...) % 10000\<close> is never negative.\<close>
  "resolve_file_name E fm current_url =
     (let file_name = (case fm current_url of None \<Rightarrow> [] | Some n \<Rightarrow> n)
      in if file_name = [] then
           (case urlparse_path E current_url of
              None \<Rightarrow> Inl ValueError
            | Some path \<Rightarrow>
                (let b = basename path
                 in Inr (sanitize
                      (if b = [] \<or> b = ''download''
                       then ''download_'' @ str_of_nat (nat (str_hash E current_url mod 10000))
                            @ ''.bin''
                       else b))))
         else Inr (sanitize file_name))"

definition path_exists :: "string set \<Rightarrow> string \<Rightarrow> bool" where
  \<comment> \<open>\<^verbatim>\<open>Path(download_dir / file_name).exists()\<close>, given the names of the entries of the
      download directory: the empty name and a single dot give the directory itself, two
      dots its parent.\<close>
  "path_exists entries file_name =
     (file_name = [] \<or> file_name = ''.'' \<or> file_name = ''..'' \<or> file_name \<in> entries)"

definition max_retries :: nat where
  "max_retries = 3"

record dl_state =
  remaining_urls :: "string list"
  success_count :: nat
  fail_count :: nat
  retry_count :: nat
  skipped :: nat
  skipped_count :: nat
  download_success :: bool
  work_file :: textfile
  dir_entries :: "string set"
  trace :: "event list"

definition on_success :: "string \<Rightarrow> dl_state \<Rightarrow> dl_state" where
  \<comment> \<open>Source lines 268 to 283: the target file exists now, the URL leaves the list and the
      work file is rewritten with what remains.\<close>
  "on_success file_name s =
     (let rest = tl (remaining_urls s)
      in s\<lparr>dir_entries := insert file_name (dir_entries s),
           download_success := True,
           success_count := success_count s + 1,
           remaining_urls := rest,
           work_file := Text (write_urls rest),
           trace := trace s @ [Write_work_file (write_urls rest)]\<rparr>)"

definition failed_text :: "string \<Rightarrow> string list \<Rightarrow> string" where
  \<comment> \<open>Source lines 308 to 312: the failed URL behind the marker, then the remaining URLs.\<close>
  "failed_text current_url rest = ''[FAILED] '' @ current_url @ [LF] @ write_urls rest"

definition on_exception :: "string \<Rightarrow> dl_state \<Rightarrow> dl_state" where
  \<comment> \<open>Source lines 285 to 312.\<close>
  "on_exception current_url s =
     (let rc = retry_count s + 1
      in if rc \<le> max_retries then
           s\<lparr>retry_count := rc,
             trace := trace s @ [Sleep (if rc < max_retries then 30 else 90)]\<rparr>
         else
           (let rest = tl (remaining_urls s)
            in s\<lparr>retry_count := rc,
                 fail_count := fail_count s + 1,
                 remaining_urls := rest,
                 work_file := Text (failed_text current_url rest),
                 trace := trace s @ [Write_work_file (failed_text current_url rest)]\<rparr>))"

definition attempt :: "env \<Rightarrow> string \<Rightarrow> string \<Rightarrow> dl_state \<Rightarrow> dl_state" where
  \<comment> \<open>One pass through the body of the inner loop, source lines 258 to 312.\<close>
  "attempt E current_url file_name s =
     (let s1 = s\<lparr>trace := trace s @ [Sleep_random, Get current_url]\<rparr>
      in case requests_get E (trace s @ [Sleep_random]) current_url of
           Completed \<Rightarrow> on_success file_name s1
         | Raised_before_open \<Rightarrow> on_exception current_url s1
         | Raised_after_open \<Rightarrow>
             on_exception current_url (s1\<lparr>dir_entries := insert file_name (dir_entries s1)\<rparr>))"

function attempt_loop :: "env \<Rightarrow> string \<Rightarrow> string \<Rightarrow> dl_state \<Rightarrow> dl_state" where
  \<comment> \<open>Source line 257: \<^verbatim>\<open>while retry_count <= max_retries and not download_success\<close>.\<close>
  "attempt_loop E current_url file_name s =
     (if retry_count s \<le> max_retries \<and> \<not> download_success s
      then attempt_loop E current_url file_name (attempt E current_url file_name s)
      else s)"
  by pat_completeness auto

lemma attempt_measure:
  assumes "retry_count s \<le> max_retries" and "\<not> download_success s"
  shows "(max_retries + 1 - retry_count (attempt E u f s))
           + (if download_success (attempt E u f s) then 0 else 1)
         < (max_retries + 1 - retry_count s) + (if download_success s then 0 else 1)"
  using assms
  by (cases "requests_get E (trace s @ [Sleep_random]) u")
     (auto simp: attempt_def on_success_def on_exception_def Let_def)

termination attempt_loop
  by (relation "measure (\<lambda>(E, u, f, s).
        (max_retries + 1 - retry_count s) + (if download_success s then 0 else 1))")
     (use attempt_measure in auto)

declare attempt_loop.simps [simp del]

fun retry_trace :: "string \<Rightarrow> nat \<Rightarrow> nat \<Rightarrow> event list" where
  \<comment> \<open>What \<open>k\<close> failed attempts with a retry after each leave in the trace, the first of
      them made with \<^verbatim>\<open>retry_count == r\<close>.\<close>
  "retry_trace u r 0 = []"
| "retry_trace u r (Suc k) =
     [Sleep_random, Get u, Sleep (if Suc r < max_retries then 30 else 90)]
     @ retry_trace u (Suc r) k"

lemma attempt_loop_exit:
  "download_success s \<or> max_retries < retry_count s \<Longrightarrow> attempt_loop E u f s = s"
  by (subst attempt_loop.simps) auto

lemma attempt_loop_step:
  "\<not> download_success s \<Longrightarrow> retry_count s \<le> max_retries \<Longrightarrow>
   attempt_loop E u f s = attempt_loop E u f (attempt E u f s)"
  by (subst attempt_loop.simps) simp

lemma attempt_cases [consumes 2, case_names succeeded retry failed]:
  assumes "\<not> download_success s" and "retry_count s \<le> max_retries"
  obtains
    (succeeded)
      "attempt E u f s =
         s\<lparr>trace := trace s @ [Sleep_random, Get u, Write_work_file (write_urls (tl (remaining_urls s)))],
           dir_entries := insert f (dir_entries s),
           download_success := True,
           success_count := success_count s + 1,
           remaining_urls := tl (remaining_urls s),
           work_file := Text (write_urls (tl (remaining_urls s)))\<rparr>"
  | (retry) d where
      "retry_count s < max_retries"
      "d = dir_entries s \<or> d = insert f (dir_entries s)"
      "attempt E u f s =
         s\<lparr>trace := trace s @ [Sleep_random, Get u,
                                 Sleep (if Suc (retry_count s) < max_retries then 30 else 90)],
           dir_entries := d,
           retry_count := Suc (retry_count s)\<rparr>"
  | (failed) d where
      "retry_count s = max_retries"
      "d = dir_entries s \<or> d = insert f (dir_entries s)"
      "attempt E u f s =
         s\<lparr>trace := trace s @ [Sleep_random, Get u,
                                 Write_work_file (failed_text u (tl (remaining_urls s)))],
           dir_entries := d,
           retry_count := Suc (retry_count s),
           fail_count := fail_count s + 1,
           remaining_urls := tl (remaining_urls s),
           work_file := Text (failed_text u (tl (remaining_urls s)))\<rparr>"
proof (cases "requests_get E (trace s @ [Sleep_random]) u")
  case Completed
  then have "attempt E u f s =
         s\<lparr>trace := trace s @ [Sleep_random, Get u, Write_work_file (write_urls (tl (remaining_urls s)))],
           dir_entries := insert f (dir_entries s),
           download_success := True,
           success_count := success_count s + 1,
           remaining_urls := tl (remaining_urls s),
           work_file := Text (write_urls (tl (remaining_urls s)))\<rparr>"
    by (simp add: attempt_def on_success_def Let_def)
  then show thesis by (rule succeeded)
next
  case Raised_before_open
  show thesis
  proof (cases "retry_count s < max_retries")
    case True
    show thesis
      by (rule retry[of "dir_entries s"])
         (use True Raised_before_open in \<open>simp_all add: attempt_def on_exception_def Let_def\<close>)
  next
    case False
    with assms have eq: "retry_count s = max_retries" by simp
    show thesis
      by (rule failed[of "dir_entries s"])
         (use eq Raised_before_open in \<open>simp_all add: attempt_def on_exception_def Let_def\<close>)
  qed
next
  case Raised_after_open
  show thesis
  proof (cases "retry_count s < max_retries")
    case True
    show thesis
      by (rule retry[of "insert f (dir_entries s)"])
         (use True Raised_after_open in \<open>simp_all add: attempt_def on_exception_def Let_def\<close>)
  next
    case False
    with assms have eq: "retry_count s = max_retries" by simp
    show thesis
      by (rule failed[of "insert f (dir_entries s)"])
         (use eq Raised_after_open in \<open>simp_all add: attempt_def on_exception_def Let_def\<close>)
  qed
qed

lemma attempt_loop_result:
  assumes "\<not> download_success s" and "retry_count s \<le> max_retries"
  shows "\<exists>k. retry_count s + k \<le> max_retries
           \<and> remaining_urls (attempt_loop E u f s) = tl (remaining_urls s)
           \<and> skipped (attempt_loop E u f s) = skipped s
           \<and> skipped_count (attempt_loop E u f s) = skipped_count s
           \<and> dir_entries s \<subseteq> dir_entries (attempt_loop E u f s)
           \<and> dir_entries (attempt_loop E u f s) \<subseteq> insert f (dir_entries s)
           \<and> (success_count (attempt_loop E u f s) = success_count s + 1
                \<and> fail_count (attempt_loop E u f s) = fail_count s
                \<and> f \<in> dir_entries (attempt_loop E u f s)
                \<and> work_file (attempt_loop E u f s) = Text (write_urls (tl (remaining_urls s)))
                \<and> trace (attempt_loop E u f s) =
                    trace s @ retry_trace u (retry_count s) k
                    @ [Sleep_random, Get u, Write_work_file (write_urls (tl (remaining_urls s)))]
              \<or> retry_count s + k = max_retries
                \<and> success_count (attempt_loop E u f s) = success_count s
                \<and> fail_count (attempt_loop E u f s) = fail_count s + 1
                \<and> work_file (attempt_loop E u f s) = Text (failed_text u (tl (remaining_urls s)))
                \<and> trace (attempt_loop E u f s) =
                    trace s @ retry_trace u (retry_count s) k
                    @ [Sleep_random, Get u,
                       Write_work_file (failed_text u (tl (remaining_urls s)))])"
  using assms
proof (induction E u f s rule: attempt_loop.induct)
  case (1 E u f s)
  note step = attempt_loop_step[OF "1.prems", of E u f]
  from "1.prems" show ?case
  proof (cases rule: attempt_cases[of s E u f])
    case succeeded
    then have "attempt_loop E u f s = attempt E u f s"
      using step by (simp add: attempt_loop_exit)
    then show ?thesis
      by (intro exI[of _ 0]) (use succeeded "1.prems" in auto)
  next
    case (retry d)
    let ?t = "attempt E u f s"
    have t: "\<not> download_success ?t" "retry_count ?t \<le> max_retries"
      using retry "1.prems" by simp_all
    from "1.IH"[OF _ t] "1.prems" obtain k where k:
      "retry_count ?t + k \<le> max_retries"
      "remaining_urls (attempt_loop E u f ?t) = tl (remaining_urls ?t)"
      "skipped (attempt_loop E u f ?t) = skipped ?t"
      "skipped_count (attempt_loop E u f ?t) = skipped_count ?t"
      "dir_entries ?t \<subseteq> dir_entries (attempt_loop E u f ?t)"
      "dir_entries (attempt_loop E u f ?t) \<subseteq> insert f (dir_entries ?t)"
      "success_count (attempt_loop E u f ?t) = success_count ?t + 1
         \<and> fail_count (attempt_loop E u f ?t) = fail_count ?t
         \<and> f \<in> dir_entries (attempt_loop E u f ?t)
         \<and> work_file (attempt_loop E u f ?t) = Text (write_urls (tl (remaining_urls ?t)))
         \<and> trace (attempt_loop E u f ?t) =
             trace ?t @ retry_trace u (retry_count ?t) k
             @ [Sleep_random, Get u, Write_work_file (write_urls (tl (remaining_urls ?t)))]
       \<or> retry_count ?t + k = max_retries
         \<and> success_count (attempt_loop E u f ?t) = success_count ?t
         \<and> fail_count (attempt_loop E u f ?t) = fail_count ?t + 1
         \<and> work_file (attempt_loop E u f ?t) = Text (failed_text u (tl (remaining_urls ?t)))
         \<and> trace (attempt_loop E u f ?t) =
             trace ?t @ retry_trace u (retry_count ?t) k
             @ [Sleep_random, Get u, Write_work_file (failed_text u (tl (remaining_urls ?t)))]"
      by blast
    have fields: "remaining_urls ?t = remaining_urls s" "skipped ?t = skipped s"
      "skipped_count ?t = skipped_count s" "success_count ?t = success_count s"
      "fail_count ?t = fail_count s" "retry_count ?t = Suc (retry_count s)"
      "dir_entries ?t = d"
      "trace ?t = trace s @ [Sleep_random, Get u,
                     Sleep (if Suc (retry_count s) < max_retries then 30 else 90)]"
      by (simp_all add: retry)
    show ?thesis
      apply (rule exI[of _ "Suc k"])
      using k retry(2) unfolding step fields
      by auto
  next
    case (failed d)
    then have "attempt_loop E u f s = attempt E u f s"
      using step by (simp add: attempt_loop_exit)
    then show ?thesis
      by (intro exI[of _ 0]) (use failed "1.prems" in auto)
  qed
qed

definition pre_check :: "string \<Rightarrow> dl_state \<Rightarrow> dl_state" where
  \<comment> \<open>Source lines 242 to 255: the branch on \<^verbatim>\<open>file_path.exists()\<close>.\<close>
  "pre_check file_name s =
     (if path_exists (dir_entries s) file_name then
        s\<lparr>download_success := True,
          remaining_urls := tl (remaining_urls s),
          skipped := skipped s + 1,
          skipped_count := skipped_count s + 1\<rparr>
      else
        (if skipped s > 0
         then s\<lparr>trace := trace s @ [Print_skipped (skipped s)], skipped := 0\<rparr>
         else s)\<lparr>retry_count := 0, download_success := False\<rparr>)"

definition loop_body :: "env \<Rightarrow> (string \<rightharpoonup> string) \<Rightarrow> string \<Rightarrow> dl_state \<Rightarrow> error + dl_state" where
  \<comment> \<open>Source lines 229 to 312: one pass through the body of the outer loop, for the URL
      at the head of \<^verbatim>\<open>remaining_urls\<close>.\<close>
  "loop_body E fm current_url s =
     (case resolve_file_name E fm current_url of
        Inl e \<Rightarrow> Inl e
      | Inr file_name \<Rightarrow> Inr (attempt_loop E current_url file_name (pre_check file_name s)))"

lemma loop_body_remaining:
  assumes "loop_body E fm u s = Inr s'"
  shows "remaining_urls s' = tl (remaining_urls s)"
proof -
  from assms obtain f where s': "s' = attempt_loop E u f (pre_check f s)"
    by (auto simp: loop_body_def split: sum.splits)
  show ?thesis
  proof (cases "path_exists (dir_entries s) f")
    case True
    then show ?thesis by (simp add: s' pre_check_def attempt_loop_exit)
  next
    case False
    then have "\<not> download_success (pre_check f s)" "retry_count (pre_check f s) \<le> max_retries"
      by (simp_all add: pre_check_def)
    from attempt_loop_result[OF this, of E u f]
    have "remaining_urls (attempt_loop E u f (pre_check f s))
            = tl (remaining_urls (pre_check f s))"
      by blast
    with False show ?thesis by (simp add: s' pre_check_def)
  qed
qed

function download_loop :: "env \<Rightarrow> (string \<rightharpoonup> string) \<Rightarrow> dl_state \<Rightarrow> error + dl_state" where
  \<comment> \<open>Source lines 226 to 227: \<^verbatim>\<open>while remaining_urls\<close>, with
      \<^verbatim>\<open>current_url = remaining_urls[0]\<close>.\<close>
  "download_loop E fm s =
     (case remaining_urls s of
        [] \<Rightarrow> Inr s
      | current_url # _ \<Rightarrow>
          (case loop_body E fm current_url s of
             Inl e \<Rightarrow> Inl e
           | Inr s' \<Rightarrow> download_loop E fm s'))"
  by pat_completeness auto

termination download_loop
  by (relation "measure (\<lambda>(E, fm, s). length (remaining_urls s))")
     (auto dest: loop_body_remaining)

declare download_loop.simps [simp del]

definition initial_state :: "string list \<Rightarrow> textfile \<Rightarrow> string set \<Rightarrow> dl_state" where
  \<comment> \<open>Source lines 216 to 225. \<^verbatim>\<open>download_success\<close> is unbound until the first pass sets
      it; the model starts it at \<open>False\<close>.\<close>
  "initial_state urls f entries =
     \<lparr>remaining_urls = urls, success_count = 0, fail_count = 0, retry_count = 0,
      skipped = 0, skipped_count = 0, download_success = False,
      work_file = f, dir_entries = entries, trace = []\<rparr>"

definition download_files_from_urls ::
  "env \<Rightarrow> textfile \<Rightarrow> string set \<Rightarrow> error + ((nat \<times> nat) \<times> dl_state)" where
  \<comment> \<open>Given the work file and the names in the download directory: the pair returned at
      source line 320, with the state the run ends in.\<close>
  "download_files_from_urls E f entries =
     (case process_url_file E f of
        Inl e \<Rightarrow> Inl e
      | Inr (d, f') \<Rightarrow>
          (case download_loop E (filename_mapping d) (initial_state (unique_urls d) f' entries) of
             Inl e \<Rightarrow> Inl e
           | Inr s \<Rightarrow> Inr ((success_count s, fail_count s), s)))"

section \<open>The URL Extractor: \<^verbatim>\<open>extract_urls_from_json\<close>\<close>

datatype json =
    JNull
  | JBool bool
  | JNumber string     \<comment> \<open>the literal; the program never computes with a number\<close>
  | JString string
  | JArray "json list"
  | JObject "(string \<times> json) list"   \<comment> \<open>the pairs of a \<^verbatim>\<open>dict\<close>, keys distinct\<close>

datatype load_result =
    Loaded json            \<comment> \<open>\<^verbatim>\<open>json.load\<close> returned\<close>
  | Invalid_JSON           \<comment> \<open>\<^verbatim>\<open>json.JSONDecodeError\<close>\<close>
  | File_not_found         \<comment> \<open>\<^verbatim>\<open>FileNotFoundError\<close>\<close>
  | Other_exception string \<comment> \<open>any other \<^verbatim>\<open>Exception\<close>, with its \<^verbatim>\<open>str(e)\<close>\<close>

definition urls_of_file_info :: "json \<Rightarrow> json list" where
  \<comment> \<open>Source lines 61 to 62.\<close>
  "urls_of_file_info file_info =
     (case file_info of
        JObject kvs \<Rightarrow>
          (case map_of kvs ''url_private_download'' of None \<Rightarrow> [] | Some v \<Rightarrow> [v])
      | _ \<Rightarrow> [])"

definition urls_of_item :: "json \<Rightarrow> json list" where
  \<comment> \<open>Source lines 55 to 62.\<close>
  "urls_of_item item =
     (case item of
        JObject kvs \<Rightarrow>
          (case map_of kvs ''files'' of
             Some (JArray files) \<Rightarrow> concat (map urls_of_file_info files)
           | _ \<Rightarrow> [])
      | _ \<Rightarrow> [])"

definition extracted_urls :: "json \<Rightarrow> json list" where
  \<comment> \<open>Source lines 45 to 62.\<close>
  "extracted_urls data =
     (let items = (case data of JArray xs \<Rightarrow> xs | _ \<Rightarrow> [data])
      in concat (map urls_of_item items))"

definition format_url :: "(json \<Rightarrow> string) \<Rightarrow> json \<Rightarrow> string" where
  \<comment> \<open>\<^verbatim>\<open>f"{url}"\<close>: a string as it is; any other value through \<^verbatim>\<open>str\<close>, a parameter.\<close>
  "format_url py_str v = (case v of JString s \<Rightarrow> s | _ \<Rightarrow> py_str v)"

definition append_text :: "textfile \<Rightarrow> string \<Rightarrow> textfile" where
  \<comment> \<open>A file opened with mode \<^verbatim>\<open>"a"\<close> and written: created when absent.\<close>
  "append_text f new =
     (case f of Absent \<Rightarrow> Text new | Unreadable \<Rightarrow> Unreadable | Text old \<Rightarrow> Text (old @ new))"

definition extract_urls_from_json ::
  "(json \<Rightarrow> string) \<Rightarrow> string \<Rightarrow> load_result \<Rightarrow> textfile \<Rightarrow> nat \<times> textfile \<times> string list" where
  \<comment> \<open>Given the path as printed, what opening and loading the input gave, and the output
      file: the count returned, the output file afterwards and the lines printed.\<close>
  "extract_urls_from_json py_str file_path loaded output_file =
     (case loaded of
        Invalid_JSON \<Rightarrow>
          (0, output_file, [''Error: '' @ file_path @ '' contains invalid JSON''])
      | File_not_found \<Rightarrow>
          (0, output_file, [''Error: File '' @ file_path @ '' not found''])
      | Other_exception e \<Rightarrow>
          (0, output_file, [''Error processing '' @ file_path @ '': '' @ e])
      | Loaded data \<Rightarrow>
          (let urls = extracted_urls data
           in (length urls,
               (if urls \<noteq> [] then append_text output_file (write_urls (map (format_url py_str) urls))
                else output_file),
               [])))"

section \<open>A model of \<^verbatim>\<open>urlparse\<close> for running the program\<close>

text \<open>
  The theorems below hold for every \<open>urlparse_path\<close>. To run the program on a concrete
  work file, \<open>py_urlparse_path\<close> follows \<^verbatim>\<open>urllib.parse.urlsplit\<close> and \<^verbatim>\<open>urlparse\<close> of
  CPython 3.12 up to the path component. A bracketed host is validated by the
  \<^verbatim>\<open>ipaddress\<close> module there; this model answers \<open>None\<close> for every one.
\<close>

definition scheme_char :: "char \<Rightarrow> bool" where
  "scheme_char c =
     (let n = (of_char c :: nat)
      in (48 \<le> n \<and> n \<le> 57) \<or> (65 \<le> n \<and> n \<le> 90) \<or> (97 \<le> n \<and> n \<le> 122)
         \<or> c \<in> set ''+-.'')"

definition ascii_alpha :: "char \<Rightarrow> bool" where
  "ascii_alpha c =
     (let n = (of_char c :: nat) in (65 \<le> n \<and> n \<le> 90) \<or> (97 \<le> n \<and> n \<le> 122))"

definition ascii_lower :: "char \<Rightarrow> char" where
  "ascii_lower c =
     (let n = (of_char c :: nat) in if 65 \<le> n \<and> n \<le> 90 then char_of (n + 32) else c)"

definition split_scheme :: "string \<Rightarrow> string \<times> string" where
  \<comment> \<open>The scheme, lower-cased, and the text after its colon; no scheme where the text
      before the first colon is not one.\<close>
  "split_scheme u =
     (let front = takeWhile (\<lambda>c. c \<noteq> CHR '':'') u;
          back = dropWhile (\<lambda>c. c \<noteq> CHR '':'') u
      in if back \<noteq> [] \<and> front \<noteq> [] \<and> ascii_alpha (hd front) \<and> list_all scheme_char front
         then (map ascii_lower front, tl back)
         else ([], u))"

definition uses_params :: "string list" where
  "uses_params = [[], ''ftp'', ''hdl'', ''prospero'', ''http'', ''imap'', ''https'', ''shttp'',
                  ''rtsp'', ''rtspu'', ''sip'', ''sips'', ''mms'', ''sftp'', ''tel'']"

definition split_params :: "string \<Rightarrow> string" where
  \<comment> \<open>\<^verbatim>\<open>_splitparams\<close>: the path without the parameters of its last segment.\<close>
  "split_params p =
     (let last_seg = basename p;
          front = take (length p - length last_seg) p
      in front @ takeWhile (\<lambda>c. c \<noteq> CHR '';'') last_seg)"

definition py_urlparse_path :: "string \<Rightarrow> string option" where
  "py_urlparse_path u0 =
     (let u1 = dropWhile (\<lambda>c. (of_char c :: nat) \<le> 32) u0;
          u2 = filter (\<lambda>c. (of_char c :: nat) \<notin> {9, 10, 13}) u1;
          (scheme, u3) = split_scheme u2;
          delim = (\<lambda>c. c \<in> set ''/?#'');
          netloc = (if take 2 u3 = ''//'' then takeWhile (\<lambda>c. \<not> delim c) (drop 2 u3) else []);
          u4 = (if take 2 u3 = ''//'' then dropWhile (\<lambda>c. \<not> delim c) (drop 2 u3) else u3);
          u5 = takeWhile (\<lambda>c. c \<noteq> CHR ''?'') (takeWhile (\<lambda>c. c \<noteq> CHR ''#'') u4)
      in if CHR ''['' \<in> set netloc \<or> CHR '']'' \<in> set netloc then None
         else Some (if scheme \<in> set uses_params then split_params u5 else u5))"

definition run_env :: "(string \<Rightarrow> int) \<Rightarrow> (event list \<Rightarrow> string \<Rightarrow> attempt_result) \<Rightarrow> env" where
  "run_env h net = \<lparr>urlparse_path = py_urlparse_path, str_hash = h, requests_get = net\<rparr>"

definition no_hash :: "string \<Rightarrow> int" where
  \<comment> \<open>A \<^verbatim>\<open>hash\<close> for running the program where no name is made from it.\<close>
  "no_hash u = 0"

definition always :: "attempt_result \<Rightarrow> event list \<Rightarrow> string \<Rightarrow> attempt_result" where
  \<comment> \<open>A network that answers every request the same way.\<close>
  "always r tr u = r"

section \<open>Paths and their segments\<close>

fun path_of_segments :: "string list \<Rightarrow> string" where
  \<comment> \<open>The path that has the given segments between its slashes.\<close>
  "path_of_segments [] = []"
| "path_of_segments [seg] = seg"
| "path_of_segments (seg # next_seg # segs) = seg @ ''/'' @ path_of_segments (next_seg # segs)"

lemma split_on_nonempty [simp]: "split_on c xs \<noteq> []"
  by (induction xs) (auto split: list.splits)

lemma split_on_append_free:
  "c \<notin> set seg \<Longrightarrow> split_on c (seg @ rest) =
     (case split_on c rest of [] \<Rightarrow> [seg] | l # ls \<Rightarrow> (seg @ l) # ls)"
  by (induction seg) (auto split: list.splits)

lemma split_on_free: "c \<notin> set seg \<Longrightarrow> split_on c seg = [seg]"
  by (induction seg) auto

lemma split_on_path_of_segments:
  "segs \<noteq> [] \<Longrightarrow> \<forall>seg\<in>set segs. CHR ''/'' \<notin> set seg \<Longrightarrow>
   split_on (CHR ''/'') (path_of_segments segs) = segs"
  by (induction segs rule: path_of_segments.induct)
     (auto simp: split_on_free split_on_append_free)

lemma index_of_None: "index_of x xs = None \<longleftrightarrow> x \<notin> set xs"
  by (induction xs) (auto split: option.splits)

lemma index_of_first: "x \<notin> set pre \<Longrightarrow> index_of x (pre @ x # rest) = Some (length pre)"
  by (induction pre) auto

lemma takeWhile_neq_stop: "c \<notin> set xs \<Longrightarrow> takeWhile (\<lambda>x. x \<noteq> c) (xs @ c # ys) = xs"
  by (induction xs) auto

lemma takeWhile_neq_all: "c \<notin> set xs \<Longrightarrow> takeWhile (\<lambda>x. x \<noteq> c) xs = xs"
  by (induction xs) auto

lemma basename_append_free:
  "CHR ''/'' \<notin> set seg \<Longrightarrow> basename (p @ CHR ''/'' # seg) = seg"
  by (simp add: basename_def takeWhile_neq_stop)

lemma basename_free: "CHR ''/'' \<notin> set seg \<Longrightarrow> basename seg = seg"
  by (simp add: basename_def takeWhile_neq_all)

lemma path_of_segments_snoc:
  "segs \<noteq> [] \<Longrightarrow> path_of_segments (segs @ [seg]) = path_of_segments segs @ ''/'' @ seg"
  by (induction segs rule: path_of_segments.induct) auto

lemma basename_path_of_segments:
  assumes "segs \<noteq> []" and "\<forall>seg\<in>set segs. CHR ''/'' \<notin> set seg"
  shows "basename (path_of_segments segs) = last segs"
proof (cases "butlast segs = []")
  case True
  with assms have "segs = [last segs]"
    by (metis append_butlast_last_id append_Nil)
  then have "path_of_segments segs = last segs"
    by (metis path_of_segments.simps(2))
  with assms show ?thesis by (simp add: basename_free)
next
  case False
  have "path_of_segments segs = path_of_segments (butlast segs @ [last segs])"
    using assms by simp
  also have "\<dots> = path_of_segments (butlast segs) @ ''/'' @ last segs"
    using False by (rule path_of_segments_snoc)
  finally show ?thesis
    using assms by (simp add: basename_append_free)
qed

lemma filename_of_path_segments:
  assumes "segs \<noteq> []" and "\<forall>seg\<in>set segs. CHR ''/'' \<notin> set seg"
  shows "filename_of_path (path_of_segments segs) =
      (case index_of ''download'' segs of
         Some i \<Rightarrow> if i < length segs - 1 then segs ! (i + 1) else ''download.bin''
       | None \<Rightarrow> if last segs = [] then ''file.bin'' else last segs)"
  using split_on_path_of_segments[OF assms] basename_path_of_segments[OF assms]
  by (simp add: filename_of_path_def Let_def split: option.splits)

lemma collect_url_info_nth:
  "collect_url_info E us = Inr infos \<Longrightarrow> i < length us \<Longrightarrow>
   length infos = length us
   \<and> (\<exists>p. urlparse_path E (us ! i) = Some p \<and> infos ! i = info_of_path (us ! i) p)"
proof (induction us arbitrary: infos i)
  case Nil
  then show ?case by simp
next
  case (Cons u us)
  from Cons.prems(1) obtain p rest where
    p: "urlparse_path E u = Some p" and rest: "collect_url_info E us = Inr rest"
    and infos: "infos = info_of_path u p # rest"
    by (auto split: option.splits sum.splits)
  show ?case
  proof (cases i)
    case 0
    then show ?thesis
      using p infos rest Cons.IH[OF rest] by (cases us) auto
  next
    case (Suc j)
    then show ?thesis
      using Cons.IH[OF rest, of j] Cons.prems(2) infos by simp
  qed
qed

section \<open>The original filename of a URL\<close>

text \<open>
  Claim C6. For every unique URL, with the path that \<^verbatim>\<open>urlparse\<close> gives it cut into its
  segments at the slashes, the original filename recorded for the URL is
  \<^item> the segment right after the first segment equal to \<^verbatim>\<open>download\<close>, when a segment
    follows it;
  \<^item> \<^verbatim>\<open>download.bin\<close> when that first \<^verbatim>\<open>download\<close> is the last segment;
  \<^item> the last segment when no segment is \<^verbatim>\<open>download\<close> and the last one is not empty;
  \<^item> \<^verbatim>\<open>file.bin\<close> when no segment is \<^verbatim>\<open>download\<close> and the last one is empty.
\<close>

theorem original_filename_by_segments:
  assumes "collect_url_info E urls = Inr infos"
    and "i < length urls"
    and "urlparse_path E (urls ! i) = Some (path_of_segments segs)"
    and "segs \<noteq> []"
    and "\<forall>seg\<in>set segs. CHR ''/'' \<notin> set seg"
  shows "(segs = pre @ ''download'' # seg # post \<and> ''download'' \<notin> set pre
            \<longrightarrow> original_filename (infos ! i) = seg)
       \<and> (segs = pre' @ [''download''] \<and> ''download'' \<notin> set pre'
            \<longrightarrow> original_filename (infos ! i) = ''download.bin'')
       \<and> (''download'' \<notin> set segs \<and> last segs \<noteq> []
            \<longrightarrow> original_filename (infos ! i) = last segs)
       \<and> (''download'' \<notin> set segs \<and> last segs = []
            \<longrightarrow> original_filename (infos ! i) = ''file.bin'')"
proof -
  from collect_url_info_nth[OF assms(1,2)] assms(3)
  have "infos ! i = info_of_path (urls ! i) (path_of_segments segs)"
    by auto
  then have "original_filename (infos ! i) = filename_of_path (path_of_segments segs)"
    by (simp add: info_of_path_def Let_def)
  then have fn: "original_filename (infos ! i) =
      (case index_of ''download'' segs of
         Some i \<Rightarrow> if i < length segs - 1 then segs ! (i + 1) else ''download.bin''
       | None \<Rightarrow> if last segs = [] then ''file.bin'' else last segs)"
    using filename_of_path_segments[OF assms(4,5)] by simp
  have none: "''download'' \<notin> set segs \<Longrightarrow> index_of ''download'' segs = None"
    by (simp add: index_of_None)
  have 1: "original_filename (infos ! i) = seg"
    if "segs = pre @ ''download'' # seg # post" "''download'' \<notin> set pre"
    unfolding fn using that by (simp add: index_of_first nth_append)
  have 2: "original_filename (infos ! i) = ''download.bin''"
    if "segs = pre' @ [''download'']" "''download'' \<notin> set pre'"
    unfolding fn using that by (simp add: index_of_first)
  have 3: "original_filename (infos ! i) = last segs"
    if "''download'' \<notin> set segs" "last segs \<noteq> []"
    unfolding fn using that by (simp add: none)
  have 4: "original_filename (infos ! i) = ''file.bin''"
    if "''download'' \<notin> set segs" "last segs = []"
    unfolding fn using that by (simp add: none)
  from 1 2 3 4 show ?thesis by blast
qed

definition segment_urls :: "string list" where
  "segment_urls =
     [''https://x/T1-F1/download/report.pdf'', ''https://x/T1-F1/download'',
      ''https://x/files/report.pdf'', ''https://x/files/'']"

theorem original_filename_by_segments_witness:
  "\<exists>infos. collect_url_info (run_env no_hash (always Completed)) segment_urls = Inr infos
     \<and> map original_filename infos = [''report.pdf'', ''download.bin'', ''report.pdf'', ''file.bin'']"
proof -
  let ?E = "run_env no_hash (always Completed)"
  obtain infos where infos: "collect_url_info ?E segment_urls = Inr infos"
    and len: "length infos = 4"
    using collect_url_info_nth[of ?E segment_urls _ 0]
    by (cases "collect_url_info ?E segment_urls") (simp_all add: segment_urls_def run_env_def, code_simp)
  have p0: "urlparse_path ?E (segment_urls ! 0)
              = Some (path_of_segments ['''', ''T1-F1'', ''download'', ''report.pdf''])"
    and p1: "urlparse_path ?E (segment_urls ! 1)
              = Some (path_of_segments ['''', ''T1-F1'', ''download''])"
    and p2: "urlparse_path ?E (segment_urls ! 2)
              = Some (path_of_segments ['''', ''files'', ''report.pdf''])"
    and p3: "urlparse_path ?E (segment_urls ! 3)
              = Some (path_of_segments ['''', ''files'', ''''])"
    by code_simp+
  have n: "0 < length segment_urls" "1 < length segment_urls" "2 < length segment_urls"
    "3 < length segment_urls"
    by (simp_all add: segment_urls_def)
  have a: "original_filename (infos ! 0) = ''report.pdf''"
    using original_filename_by_segments
      [OF infos n(1) p0, of "['''', ''T1-F1'']" "''report.pdf''" "[]"]
    by simp
  have b: "original_filename (infos ! 1) = ''download.bin''"
    using original_filename_by_segments [OF infos n(2) p1, of _ _ _ "['''', ''T1-F1'']"]
    by simp
  have c: "original_filename (infos ! 2) = ''report.pdf''"
    using original_filename_by_segments [OF infos n(3) p2] by simp
  have d: "original_filename (infos ! 3) = ''file.bin''"
    using original_filename_by_segments [OF infos n(4) p3] by simp
  have "map original_filename infos = [''report.pdf'', ''download.bin'', ''report.pdf'', ''file.bin'']"
    using a b c d len by (auto simp: list_eq_iff_nth_eq nth_Cons' less_Suc_eq numeral_eq_Suc)
  with infos show ?thesis by (intro exI[of _ infos]) simp
qed

section \<open>The work file, written and read again\<close>

lemma universal_newlines_no_CR: "CR \<notin> set (universal_newlines t)"
  by (induction t rule: universal_newlines.induct) (auto simp: CR_def LF_def)

lemma universal_newlines_id: "CR \<notin> set t \<Longrightarrow> universal_newlines t = t"
  by (induction t rule: universal_newlines.induct) auto

lemma set_universal_newlines: "set (universal_newlines t) \<subseteq> insert LF (set t)"
  by (induction t rule: universal_newlines.induct) auto

lemma split_on_pieces:
  "l \<in> set (split_on c xs) \<Longrightarrow> c \<notin> set l \<and> set l \<subseteq> set xs"
proof (induction xs arbitrary: l)
  case Nil
  then show ?case by simp
next
  case (Cons x xs)
  obtain a list where sp: "split_on c xs = a # list"
    by (cases "split_on c xs") simp_all
  have head: "c \<notin> set a \<and> set a \<subseteq> set xs"
    using Cons.IH[of a] sp by simp
  have others: "c \<notin> set l' \<and> set l' \<subseteq> set xs" if "l' \<in> set list" for l'
    using Cons.IH[of l'] sp that by simp
  from Cons.prems consider "l = []" | "l = a" | "l \<in> set list" | "x \<noteq> c" "l = x # a"
    by (auto simp: sp split: if_splits)
  then show ?case
    using head others by cases auto
qed

lemma split_on_terminated:
  "\<forall>u\<in>set us. c \<notin> set u \<Longrightarrow> split_on c (concat (map (\<lambda>u. u @ [c]) us)) = us @ [[]]"
  by (induction us) (auto simp: split_on_append_free)

lemma set_strip: "set (strip s) \<subseteq> set s"
proof -
  have "set (strip s) \<subseteq> set (dropWhile isspace s)"
    unfolding strip_def using set_dropWhileD[of _ isspace "rev (dropWhile isspace s)"] by auto
  also have "\<dots> \<subseteq> set s"
    using set_dropWhileD[of _ isspace s] by auto
  finally show ?thesis .
qed

lemma strip_ends:
  assumes "strip s \<noteq> []"
  shows "\<not> isspace (hd (strip s))" and "\<not> isspace (last (strip s))"
proof -
  let ?a = "dropWhile isspace s"
  let ?b = "dropWhile isspace (rev ?a)"
  have b: "?b \<noteq> []" using assms by (simp add: strip_def)
  have a: "?a \<noteq> []"
  proof
    assume "?a = []"
    then have "?b = []" by (metis dropWhile.simps(1) rev.simps(1))
    with b show False by contradiction
  qed
  have "\<not> isspace (hd ?b)" using b by (rule hd_dropWhile)
  then show "\<not> isspace (last (strip s))"
    using b by (simp add: strip_def last_rev)
  obtain pre where "rev ?a = pre @ ?b"
    by (metis takeWhile_dropWhile_id)
  then have "last ?b = last (rev ?a)" using b by (metis last_appendR)
  also have "\<dots> = hd ?a" using a by (simp add: last_rev)
  finally have "hd (strip s) = hd ?a"
    using b by (simp add: strip_def hd_rev)
  moreover have "\<not> isspace (hd ?a)" using a by (rule hd_dropWhile)
  ultimately show "\<not> isspace (hd (strip s))" by simp
qed

lemma strip_fixed:
  assumes "x \<noteq> []" and "\<not> isspace (hd x)" and "\<not> isspace (last x)"
  shows "strip x = x"
proof -
  have "dropWhile isspace x = x"
    using assms(1,2) by (cases x) auto
  moreover have "dropWhile isspace (rev x) = rev x"
    using assms(1,3) by (cases "rev x") (auto simp: hd_rev dest: arg_cong[where f = hd])
  ultimately show ?thesis by (simp add: strip_def)
qed

lemma strip_idem: "strip (strip s) = strip s"
proof (cases "strip s = []")
  case True
  have "strip [] = []" by (simp add: strip_def)
  with True show ?thesis by simp
next
  case False
  then show ?thesis using strip_ends[of s] by (intro strip_fixed)
qed

definition clean_url :: "string \<Rightarrow> bool" where
  \<comment> \<open>A line that comes back as it is when written to the work file and read again.\<close>
  "clean_url u \<longleftrightarrow> u \<noteq> [] \<and> strip u = u \<and> LF \<notin> set u \<and> CR \<notin> set u"

lemma read_urls_clean: "u \<in> set (read_urls t) \<Longrightarrow> clean_url u"
proof -
  assume "u \<in> set (read_urls t)"
  then obtain l where l: "l \<in> set (file_lines t)" "strip l \<noteq> []" "u = strip l"
    by (auto simp: read_urls_def)
  from l(1) have "LF \<notin> set l" "CR \<notin> set l"
    using split_on_pieces[of l LF "universal_newlines t"] universal_newlines_no_CR[of t]
    by (auto simp: file_lines_def)
  then have "LF \<notin> set u" "CR \<notin> set u"
    using set_strip[of l] l(3) by auto
  then show ?thesis
    using l by (simp add: clean_url_def strip_idem)
qed

lemma read_write_urls:
  assumes "\<forall>u\<in>set us. clean_url u"
  shows "read_urls (write_urls us) = us"
proof -
  have "CR \<notin> set (write_urls us)"
    using assms by (auto simp: write_urls_def clean_url_def CR_def LF_def)
  then have "file_lines (write_urls us) = us @ [[]]"
    using assms by (simp add: file_lines_def universal_newlines_id write_urls_def
        split_on_terminated clean_url_def)
  moreover have "strip [] = []" by (simp add: strip_def)
  moreover have "filter (\<lambda>line. strip line \<noteq> []) us = us"
    using assms by (auto simp: clean_url_def filter_id_conv)
  moreover have "map strip us = us"
    using assms by (auto simp: clean_url_def map_idI)
  ultimately show ?thesis by (simp add: read_urls_def)
qed

function first_occurrences :: "'a list \<Rightarrow> 'a list" where
  \<comment> \<open>Duplicates removed in first-seen order: an element stays where it first occurs and
      its later copies go.\<close>
  "first_occurrences [] = []"
| "first_occurrences (x # xs) = x # first_occurrences (removeAll x xs)"
  by pat_completeness auto
termination
  by (relation "measure length") (auto simp: less_Suc_eq_le length_removeAll_less_eq)

lemma set_first_occurrences: "set (first_occurrences xs) = set xs"
  by (induction xs rule: first_occurrences.induct) auto

lemma distinct_first_occurrences: "distinct (first_occurrences xs)"
  by (induction xs rule: first_occurrences.induct) (auto simp: set_first_occurrences)

lemma first_occurrences_distinct: "distinct xs \<Longrightarrow> first_occurrences xs = xs"
  by (induction xs) auto

lemma dedup_fold:
  "fold (\<lambda>url (unique_urls, seen).
           if url \<notin> seen then (unique_urls @ [url], insert url seen) else (unique_urls, seen))
        urls (acc, set acc)
   = (acc @ first_occurrences (filter (\<lambda>u. u \<notin> set acc) urls), set acc \<union> set urls)"
proof (induction urls arbitrary: acc)
  case Nil
  then show ?case by simp
next
  case (Cons u us)
  show ?case
  proof (cases "u \<in> set acc")
    case True
    then show ?thesis using Cons.IH[of acc] by auto
  next
    case False
    have "removeAll u (filter (\<lambda>u. u \<notin> set acc) us)
            = filter (\<lambda>v. v \<notin> set (acc @ [u])) us"
      by (induction us) auto
    then show ?thesis using False Cons.IH[of "acc @ [u]"] by auto
  qed
qed

lemma remove_duplicates_first_occurrences: "remove_duplicates urls = first_occurrences urls"
  using dedup_fold[of urls "[]"] by (simp add: remove_duplicates_def)
lemma process_text_again:
  assumes "process_url_file E (Text t) = Inr (d, f')"
  shows "process_url_file E f' = Inr (d, f')"
    and "f' = Text (write_urls (unique_urls d))"
    and "unique_urls d = first_occurrences (read_urls t)"
proof -
  let ?uniq = "remove_duplicates (read_urls t)"
  from assms obtain infos where infos: "collect_url_info E ?uniq = Inr infos"
    and d: "d = \<lparr>unique_urls = ?uniq, filename_mapping = build_mapping infos\<rparr>"
    and f': "f' = Text (write_urls ?uniq)"
    by (auto simp: process_url_file_def process_urls_def Let_def split: sum.splits)
  have uniq: "?uniq = first_occurrences (read_urls t)"
    by (rule remove_duplicates_first_occurrences)
  have dist: "distinct ?uniq"
    by (simp add: uniq distinct_first_occurrences)
  have "\<forall>u\<in>set ?uniq. clean_url u"
    by (simp add: uniq set_first_occurrences read_urls_clean)
  then have reread: "read_urls (write_urls ?uniq) = ?uniq"
    by (rule read_write_urls)
  have again: "remove_duplicates ?uniq = ?uniq"
    using dist by (simp add: remove_duplicates_first_occurrences first_occurrences_distinct)
  show "process_url_file E f' = Inr (d, f')"
    by (simp add: process_url_file_def process_urls_def f' reread again infos d)
  show "f' = Text (write_urls (unique_urls d))"
    by (simp add: d f')
  show "unique_urls d = first_occurrences (read_urls t)"
    by (simp add: d uniq)
qed

lemma process_url_file_distinct:
  assumes "process_url_file E f = Inr (d, f')"
  shows "distinct (unique_urls d)"
proof (cases f)
  case (Text t)
  with assms show ?thesis
    using process_text_again(3)[of E t d f'] by (simp add: distinct_first_occurrences)
qed (use assms in \<open>auto simp: process_url_file_def\<close>)

section \<open>Deduplication is idempotent\<close>

text \<open>
  Claim C5. Whatever the work file holds, when \<^verbatim>\<open>process_url_file\<close> returns, running it
  again on the work file it wrote returns the same ordered list of unique URLs and the
  same mapping from URLs to filenames, and leaves the file as it is. The list has no
  duplicates, and for a readable file it is the list of the stripped non-empty lines with
  every URL kept where it first occurs; the file written holds that list, one URL per
  line.
\<close>

theorem process_url_file_idempotent:
  assumes "process_url_file E f = Inr (d, f')"
  shows "process_url_file E f' = Inr (d, f')
       \<and> distinct (unique_urls d)
       \<and> (f = Text t \<longrightarrow> f' = Text (write_urls (unique_urls d))
                       \<and> unique_urls d = first_occurrences (read_urls t))"
proof (cases f)
  case Absent
  with assms show ?thesis by (auto simp: process_url_file_def)
next
  case Unreadable
  with assms show ?thesis by (auto simp: process_url_file_def)
next
  case (Text t')
  with assms process_text_again[of E t' d f'] process_url_file_distinct[OF assms]
  show ?thesis by simp
qed

definition duplicated_text :: string where
  "duplicated_text =
     ''https://x/T1-F1/download/report.pdf\<newline>https://x/T2-F2/download/notes.txt\<newline>https://x/T1-F1/download/report.pdf\<newline>''"

theorem process_url_file_idempotent_witness:
  "\<exists>d f'. process_url_file (run_env no_hash (always Completed)) (Text duplicated_text) = Inr (d, f')
     \<and> process_url_file (run_env no_hash (always Completed)) f' = Inr (d, f')
     \<and> f' = Text ''https://x/T1-F1/download/report.pdf\<newline>https://x/T2-F2/download/notes.txt\<newline>''
     \<and> unique_urls d = [''https://x/T1-F1/download/report.pdf'', ''https://x/T2-F2/download/notes.txt'']"
proof -
  let ?E = "run_env no_hash (always Completed)"
  have run: "(case process_url_file ?E (Text duplicated_text) of
               Inl _ \<Rightarrow> False
             | Inr (d, f') \<Rightarrow> unique_urls d =
                 [''https://x/T1-F1/download/report.pdf'', ''https://x/T2-F2/download/notes.txt''])"
    by code_simp
  then obtain d f' where first: "process_url_file ?E (Text duplicated_text) = Inr (d, f')"
    and urls: "unique_urls d =
                 [''https://x/T1-F1/download/report.pdf'', ''https://x/T2-F2/download/notes.txt'']"
    by (auto split: sum.splits)
  note res = process_url_file_idempotent[OF first, of duplicated_text]
  from res have again: "process_url_file ?E f' = Inr (d, f')"
    by (rule conjunct1)
  from res have f': "f' = Text (write_urls (unique_urls d))"
    by blast
  have "write_urls (unique_urls d) =
          ''https://x/T1-F1/download/report.pdf\<newline>https://x/T2-F2/download/notes.txt\<newline>''"
    unfolding urls by code_simp
  with first again f' urls show ?thesis by (intro exI[of _ d] exI[of _ f']) simp
qed

section \<open>Names for colliding filenames\<close>












section \<open>Runs of the Download Executor\<close>

fun fetches :: "event list \<Rightarrow> string list" where
  \<comment> \<open>The URLs requested in a trace, in order.\<close>
  "fetches [] = []"
| "fetches (Get u # es) = u # fetches es"
| "fetches (e # es) = fetches es"

lemma fetches_append [simp]: "fetches (xs @ ys) = fetches xs @ fetches ys"
  by (induction xs rule: fetches.induct) auto

lemma fetches_retry_trace [simp]: "fetches (retry_trace u r k) = replicate k u"
  by (induction k arbitrary: r) auto

lemma download_loop_done: "remaining_urls s = [] \<Longrightarrow> download_loop E fm s = Inr s"
  by (subst download_loop.simps) simp

lemma download_loop_step:
  "remaining_urls s = u # rest \<Longrightarrow>
   download_loop E fm s =
     (case loop_body E fm u s of Inl e \<Rightarrow> Inl e | Inr s' \<Rightarrow> download_loop E fm s')"
  by (subst download_loop.simps) simp

lemma download_loop_invariant:
  assumes "download_loop E fm s = Inr s'"
    and "I s"
    and "\<And>t u rest t'. I t \<Longrightarrow> remaining_urls t = u # rest \<Longrightarrow> loop_body E fm u t = Inr t' \<Longrightarrow> I t'"
  shows "I s' \<and> remaining_urls s' = []"
  using assms
proof (induction E fm s rule: download_loop.induct)
  case (1 E fm s)
  show ?case
  proof (cases "remaining_urls s")
    case Nil
    then show ?thesis using "1.prems"(1,2) by (simp add: download_loop_done)
  next
    case (Cons u rest)
    with "1.prems"(1) obtain t where t: "loop_body E fm u s = Inr t"
      and run: "download_loop E fm t = Inr s'"
      by (auto simp: download_loop_step split: sum.splits)
    have "I t" using "1.prems"(3)[OF "1.prems"(2) Cons t] .
    then show ?thesis
      by (rule "1.IH"[OF Cons t run]) (rule "1.prems"(3))
  qed
qed

lemma resolve_file_name_ok:
  "urlparse_path E u \<noteq> None \<Longrightarrow> \<exists>file_name. resolve_file_name E fm u = Inr file_name"
  by (auto simp: resolve_file_name_def Let_def)

lemma download_loop_total:
  "\<forall>u\<in>set (remaining_urls s). urlparse_path E u \<noteq> None \<Longrightarrow> \<exists>s'. download_loop E fm s = Inr s'"
proof (induction E fm s rule: download_loop.induct)
  case (1 E fm s)
  show ?case
  proof (cases "remaining_urls s")
    case Nil
    then show ?thesis by (simp add: download_loop_done)
  next
    case (Cons u rest)
    with "1.prems" obtain file_name where "resolve_file_name E fm u = Inr file_name"
      using resolve_file_name_ok[of E u fm] by auto
    then obtain t where t: "loop_body E fm u s = Inr t"
      by (simp add: loop_body_def)
    have "remaining_urls t = rest"
      using loop_body_remaining[OF t] Cons by simp
    with "1.prems" Cons have "\<forall>u\<in>set (remaining_urls t). urlparse_path E u \<noteq> None"
      by simp
    from "1.IH"[OF Cons t this] show ?thesis
      using Cons t by (simp add: download_loop_step)
  qed
qed

lemma collect_url_info_parsed:
  "collect_url_info E us = Inr infos \<Longrightarrow> \<forall>u\<in>set us. urlparse_path E u \<noteq> None"
  by (induction us arbitrary: infos) (auto split: option.splits sum.splits)

lemma process_url_file_parsed:
  assumes "process_url_file E f = Inr (d, f')"
  shows "\<forall>u\<in>set (unique_urls d). urlparse_path E u \<noteq> None"
proof (cases f)
  case (Text t)
  with assms show ?thesis
    by (auto simp: process_url_file_def process_urls_def Let_def split: sum.splits
             dest: collect_url_info_parsed)
qed (use assms in \<open>auto simp: process_url_file_def\<close>)

lemma download_files_from_urls_returns:
  assumes "process_url_file E f = Inr (d, f')"
  shows "\<exists>s. download_loop E (filename_mapping d) (initial_state (unique_urls d) f' entries) = Inr s
           \<and> download_files_from_urls E f entries = Inr ((success_count s, fail_count s), s)"
proof -
  have "\<forall>u\<in>set (remaining_urls (initial_state (unique_urls d) f' entries)). urlparse_path E u \<noteq> None"
    using process_url_file_parsed[OF assms] by (simp add: initial_state_def)
  from download_loop_total[OF this] obtain s where
    "download_loop E (filename_mapping d) (initial_state (unique_urls d) f' entries) = Inr s"
    by blast
  then show ?thesis
    using assms by (simp add: download_files_from_urls_def)
qed

definition skip_note :: "dl_state \<Rightarrow> event list" where
  \<comment> \<open>What source lines 249 to 251 print before a download: the count of a batch of skips.\<close>
  "skip_note t = (if skipped t > 0 then [Print_skipped (skipped t)] else [])"

lemma loop_body_cases [consumes 1, case_names skip success failure]:
  assumes "loop_body E fm u t = Inr t'"
  obtains
    (skip) file_name where
      "resolve_file_name E fm u = Inr file_name"
      "path_exists (dir_entries t) file_name"
      "t' = t\<lparr>download_success := True, remaining_urls := tl (remaining_urls t),
               skipped := skipped t + 1, skipped_count := skipped_count t + 1\<rparr>"
  | (success) file_name k where
      "resolve_file_name E fm u = Inr file_name"
      "\<not> path_exists (dir_entries t) file_name"
      "k \<le> max_retries"
      "remaining_urls t' = tl (remaining_urls t)"
      "success_count t' = success_count t + 1"
      "fail_count t' = fail_count t"
      "skipped_count t' = skipped_count t"
      "dir_entries t' = insert file_name (dir_entries t)"
      "work_file t' = Text (write_urls (tl (remaining_urls t)))"
      "trace t' = trace t @ skip_note t @ retry_trace u 0 k
                  @ [Sleep_random, Get u, Write_work_file (write_urls (tl (remaining_urls t)))]"
  | (failure) file_name where
      "resolve_file_name E fm u = Inr file_name"
      "\<not> path_exists (dir_entries t) file_name"
      "remaining_urls t' = tl (remaining_urls t)"
      "success_count t' = success_count t"
      "fail_count t' = fail_count t + 1"
      "skipped_count t' = skipped_count t"
      "dir_entries t \<subseteq> dir_entries t'"
      "dir_entries t' \<subseteq> insert file_name (dir_entries t)"
      "work_file t' = Text (failed_text u (tl (remaining_urls t)))"
      "trace t' = trace t @ skip_note t @ retry_trace u 0 max_retries
                  @ [Sleep_random, Get u,
                     Write_work_file (failed_text u (tl (remaining_urls t)))]"
proof -
  from assms obtain file_name where res: "resolve_file_name E fm u = Inr file_name"
    and t': "t' = attempt_loop E u file_name (pre_check file_name t)"
    by (auto simp: loop_body_def split: sum.splits)
  show thesis
  proof (cases "path_exists (dir_entries t) file_name")
    case True
    then have "t' = t\<lparr>download_success := True, remaining_urls := tl (remaining_urls t),
               skipped := skipped t + 1, skipped_count := skipped_count t + 1\<rparr>"
      by (simp add: t' pre_check_def attempt_loop_exit)
    with res True show thesis by (rule skip)
  next
    case False
    let ?t0 = "pre_check file_name t"
    have t0: "\<not> download_success ?t0" "retry_count ?t0 \<le> max_retries" "retry_count ?t0 = 0"
      "remaining_urls ?t0 = remaining_urls t" "success_count ?t0 = success_count t"
      "fail_count ?t0 = fail_count t" "skipped_count ?t0 = skipped_count t"
      "dir_entries ?t0 = dir_entries t" "trace ?t0 = trace t @ skip_note t"
      using False by (simp_all add: pre_check_def skip_note_def)
    from attempt_loop_result[OF t0(1,2), of E u file_name]
    obtain k where k: "k \<le> max_retries"
      "remaining_urls t' = tl (remaining_urls t)"
      "skipped_count t' = skipped_count t"
      "dir_entries t \<subseteq> dir_entries t'"
      "dir_entries t' \<subseteq> insert file_name (dir_entries t)"
      "success_count t' = success_count t + 1
         \<and> fail_count t' = fail_count t
         \<and> file_name \<in> dir_entries t'
         \<and> work_file t' = Text (write_urls (tl (remaining_urls t)))
         \<and> trace t' = trace t @ skip_note t @ retry_trace u 0 k
              @ [Sleep_random, Get u, Write_work_file (write_urls (tl (remaining_urls t)))]
       \<or> k = max_retries
         \<and> success_count t' = success_count t
         \<and> fail_count t' = fail_count t + 1
         \<and> work_file t' = Text (failed_text u (tl (remaining_urls t)))
         \<and> trace t' = trace t @ skip_note t @ retry_trace u 0 k
              @ [Sleep_random, Get u, Write_work_file (failed_text u (tl (remaining_urls t)))]"
      unfolding t0(3-) t'[symmetric] by auto
    from k(6) show thesis
    proof
      assume s: "success_count t' = success_count t + 1
         \<and> fail_count t' = fail_count t
         \<and> file_name \<in> dir_entries t'
         \<and> work_file t' = Text (write_urls (tl (remaining_urls t)))
         \<and> trace t' = trace t @ skip_note t @ retry_trace u 0 k
              @ [Sleep_random, Get u, Write_work_file (write_urls (tl (remaining_urls t)))]"
      then have "dir_entries t' = insert file_name (dir_entries t)"
        using k(4,5) by auto
      with s res False k(1,2,3) show thesis by (intro success[of file_name k]) simp_all
    next
      assume f: "k = max_retries
         \<and> success_count t' = success_count t
         \<and> fail_count t' = fail_count t + 1
         \<and> work_file t' = Text (failed_text u (tl (remaining_urls t)))
         \<and> trace t' = trace t @ skip_note t @ retry_trace u 0 k
              @ [Sleep_random, Get u, Write_work_file (failed_text u (tl (remaining_urls t)))]"
      with res False k(2,3,4,5) show thesis by (intro failure[of file_name]) simp_all
    qed
  qed
qed

lemma fetches_skip_note [simp]: "fetches (skip_note t) = []"
  by (simp add: skip_note_def)



definition fails_for :: "string \<Rightarrow> event list \<Rightarrow> string \<Rightarrow> attempt_result" where
  \<comment> \<open>A network where every request for one URL fails and every other request succeeds.\<close>
  "fails_for bad tr u = (if u = bad then Raised_before_open else Completed)"

definition two_files :: string where
  "two_files = ''https://x/T1-F1/download/a.pdf\<newline>https://x/T2-F2/download/b.pdf\<newline>''"

section \<open>The attempt loop ends\<close>



section \<open>One outcome for every URL\<close>



section \<open>The persisted work file during a run\<close>

lemma path_exists_mono:
  "entries \<subseteq> entries' \<Longrightarrow> path_exists entries name \<Longrightarrow> path_exists entries' name"
  by (auto simp: path_exists_def)

fun writes :: "event list \<Rightarrow> string list" where
  \<comment> \<open>The texts written to the work file in a trace, in order.\<close>
  "writes [] = []"
| "writes (Write_work_file text # es) = text # writes es"
| "writes (e # es) = writes es"

lemma writes_append [simp]: "writes (xs @ ys) = writes xs @ writes ys"
  by (induction xs rule: writes.induct) auto

lemma writes_retry_trace [simp]: "writes (retry_trace u r k) = []"
  by (induction k arbitrary: r) auto

lemma writes_skip_note [simp]: "writes (skip_note t) = []"
  by (simp add: skip_note_def)

definition persisted_urls :: "textfile \<Rightarrow> string list" where
  \<comment> \<open>The URLs a later run reads from the work file (source lines 90 to 100).\<close>
  "persisted_urls f = (case f of Text t \<Rightarrow> read_urls t | _ \<Rightarrow> [])"







section \<open>Runs on concrete work files\<close>



definition after_success :: string where
  "after_success = ''https://x/T2-F2/download/b.pdf\<newline>''"

definition marked_line :: string where
  "marked_line = ''[FAILED] https://x/T1-F1/download/a.pdf''"

definition marked_run :: "error + ((nat \<times> nat) \<times> dl_state)" where
  \<comment> \<open>A work file with one marked line, an empty download directory, and a library
      that raises for every request, as \<^verbatim>\<open>requests\<close> does for a URL with no known scheme.\<close>
  "marked_run = download_files_from_urls (run_env no_hash (always Raised_before_open))
                  (Text (marked_line @ [LF])) {}"

definition lost_marker_run :: "error + ((nat \<times> nat) \<times> dl_state)" where
  \<comment> \<open>Two URLs, an empty download directory; every request for the first fails and the
      request for the second succeeds.\<close>
  "lost_marker_run =
     download_files_from_urls (run_env no_hash (fails_for ''https://x/T1-F1/download/a.pdf''))
       (Text two_files) {}"

definition two_attachments :: json where
  "two_attachments =
     JArray [JObject [(''text'', JString ''hello'')],
             JObject [(''files'', JArray
               [JObject [(''url_private_download'', JString ''https://x/T1-F1/download/report.pdf'')],
                JObject [(''name'', JString ''no url'')],
                JObject [(''url_private_download'', JString ''https://x/T2-F2/download/report.pdf'')]])]]"

definition unused_str :: "json \<Rightarrow> string" where
  \<comment> \<open>A \<^verbatim>\<open>str\<close> for an input where every collected URL is a string.\<close>
  "unused_str v = []"

section \<open>A file that exists is not fetched\<close>

text \<open>
  Claim C9. A unique URL whose resolved, sanitized filename exists in the download
  directory when the run starts is never requested in that run, and it is counted as
  skipped. In each pass, when the name resolved for the URL at the head of the list
  exists at that moment, the pass only sets the success flag, removes the URL from the
  list and adds one to both skip counters: the trace gets no request, and the next pass
  takes the next URL.
\<close>

theorem existing_file_not_fetched:
  assumes "process_url_file E f = Inr (d, f')"
    and "u \<in> set (unique_urls d)"
    and "resolve_file_name E (filename_mapping d) u = Inr file_name"
    and "path_exists entries file_name"
  shows "(\<exists>s. download_files_from_urls E f entries = Inr ((success_count s, fail_count s), s)
            \<and> u \<notin> set (fetches (trace s))
            \<and> 1 \<le> skipped_count s)
       \<and> (resolve_file_name E fm v = Inr name \<and> path_exists (dir_entries t) name
            \<longrightarrow> loop_body E fm v t =
                  Inr (t\<lparr>download_success := True, remaining_urls := tl (remaining_urls t),
                         skipped := skipped t + 1, skipped_count := skipped_count t + 1\<rparr>))"
  (is "?run \<and> (?hyp \<longrightarrow> ?step)")
proof (rule conjI)
  let ?s0 = "initial_state (unique_urls d) f' entries"
  let ?I = "\<lambda>t. entries \<subseteq> dir_entries t \<and> u \<notin> set (fetches (trace t))
                \<and> (u \<in> set (remaining_urls t) \<or> 1 \<le> skipped_count t)"
  from download_files_from_urls_returns[OF assms(1), of entries] obtain s where
    loop: "download_loop E (filename_mapping d) ?s0 = Inr s"
    and ret: "download_files_from_urls E f entries = Inr ((success_count s, fail_count s), s)"
    by blast
  have "?I s \<and> remaining_urls s = []"
    using loop
  proof (rule download_loop_invariant)
    show "?I ?s0" using assms(2) by (simp add: initial_state_def)
  next
    fix t v rest t'
    assume inv: "?I t" and rem: "remaining_urls t = v # rest"
      and body: "loop_body E (filename_mapping d) v t = Inr t'"
    have here: "path_exists (dir_entries t) file_name"
      using inv assms(4) by (blast intro: path_exists_mono)
    from body show "?I t'"
    proof (cases rule: loop_body_cases)
      case (skip name)
      then show ?thesis using inv rem by auto
    next
      case (success name k)
      then have "v \<noteq> u" using here assms(3) by auto
      then show ?thesis using success inv rem by auto
    next
      case (failure name)
      then have "v \<noteq> u" using here assms(3) by auto
      then show ?thesis using failure inv rem by auto
    qed
  qed
  with ret show ?run
    by (intro exI[of _ s]) auto
next
  show "?hyp \<longrightarrow> ?step"
    by (simp add: loop_body_def pre_check_def attempt_loop_exit)
qed

theorem existing_file_not_fetched_witness:
  "(\<exists>s. download_files_from_urls (run_env no_hash (always Completed)) (Text two_files) {''a.pdf''}
           = Inr ((1, 0), s)
        \<and> ''https://x/T1-F1/download/a.pdf'' \<notin> set (fetches (trace s))
        \<and> 1 \<le> skipped_count s)
   \<and> loop_body (run_env no_hash (always Completed)) Map.empty ''https://x/T1-F1/download/a.pdf''
         (initial_state [''https://x/T1-F1/download/a.pdf''] (Text two_files) {''a.pdf''})
       = Inr (initial_state [] (Text two_files) {''a.pdf''}
               \<lparr>download_success := True, skipped := 1, skipped_count := 1\<rparr>)"
proof -
  let ?a = "''https://x/T1-F1/download/a.pdf''" and ?b = "''https://x/T2-F2/download/b.pdf''"
  let ?E = "run_env no_hash (always Completed)"
  let ?t = "initial_state [?a] (Text two_files) {''a.pdf''}"
  have "(case process_url_file ?E (Text two_files) of
           Inl _ \<Rightarrow> False
         | Inr (d, f') \<Rightarrow> ?a \<in> set (unique_urls d)
             \<and> resolve_file_name ?E (filename_mapping d) ?a = Inr ''a.pdf'')"
    by code_simp
  then obtain d f' where run: "process_url_file ?E (Text two_files) = Inr (d, f')"
    and mem: "?a \<in> set (unique_urls d)"
    and name: "resolve_file_name ?E (filename_mapping d) ?a = Inr ''a.pdf''"
    by (auto split: sum.splits)
  have ex: "path_exists {''a.pdf''} ''a.pdf''"
    by (simp add: path_exists_def)
  have hyp: "resolve_file_name ?E Map.empty ?a = Inr ''a.pdf''
             \<and> path_exists (dir_entries ?t) ''a.pdf''"
    by code_simp
  have pair: "(case download_files_from_urls ?E (Text two_files) {''a.pdf''} of
                 Inl _ \<Rightarrow> False | Inr (r, s) \<Rightarrow> r = (1, 0))"
    by code_simp
  note res = existing_file_not_fetched[OF run mem name ex, of Map.empty ?a "''a.pdf''" ?t]
  from res obtain s where s:
    "download_files_from_urls ?E (Text two_files) {''a.pdf''}
       = Inr ((success_count s, fail_count s), s)"
    "?a \<notin> set (fetches (trace s))" "1 \<le> skipped_count s"
    by blast
  from res hyp have "loop_body ?E Map.empty ?a ?t =
      Inr (?t\<lparr>download_success := True, remaining_urls := tl (remaining_urls ?t),
                skipped := skipped ?t + 1, skipped_count := skipped_count ?t + 1\<rparr>)"
    by blast
  then have "loop_body ?E Map.empty ?a ?t =
      Inr (initial_state [] (Text two_files) {''a.pdf''}
             \<lparr>download_success := True, skipped := 1, skipped_count := 1\<rparr>)"
    by (simp add: initial_state_def)
  moreover have "download_files_from_urls ?E (Text two_files) {''a.pdf''} = Inr ((1, 0), s)"
    using pair s(1) by simp
  ultimately show ?thesis
    using s(2,3) by blast
qed

section \<open>When the work file is rewritten\<close>




section \<open>What a second run fetches\<close>

text \<open>
  Claim C3, as the code has it. Every request of a run is for a string that is a
  stripped non-empty line of the work file the run started from. So a URL that was
  removed from the work file after its download is not requested again, and the URL
  behind a \<^verbatim>\<open>[FAILED]\<close> marker is not requested because of the marked line. The marked line
  is a line like any other: when the name resolved for a line does not exist in the
  download directory, the pass issues between one and four requests for the whole line.
\<close>

theorem only_lines_fetched:
  assumes "download_files_from_urls E f entries = Inr (r, s)"
  shows "set (fetches (trace s)) \<subseteq> set (persisted_urls f)
       \<and> (resolve_file_name E fm l = Inr name \<and> \<not> path_exists (dir_entries t) name
            \<longrightarrow> (\<exists>t' n. loop_body E fm l t = Inr t' \<and> 1 \<le> n \<and> n \<le> 4
                    \<and> fetches (trace t') = fetches (trace t) @ replicate n l))"
  (is "?run \<and> (?hyp \<longrightarrow> ?step)")
proof (rule conjI)
  from assms obtain d f' where run: "process_url_file E f = Inr (d, f')"
    and loop: "download_loop E (filename_mapping d) (initial_state (unique_urls d) f' entries) = Inr s"
    by (auto simp: download_files_from_urls_def split: sum.splits)
  let ?I = "\<lambda>t. set (fetches (trace t)) \<subseteq> set (unique_urls d)
                \<and> set (remaining_urls t) \<subseteq> set (unique_urls d)"
  have "?I s \<and> remaining_urls s = []"
    using loop
  proof (rule download_loop_invariant)
    show "?I (initial_state (unique_urls d) f' entries)"
      by (simp add: initial_state_def)
  next
    fix t u rest t'
    assume inv: "?I t" and rem: "remaining_urls t = u # rest"
      and body: "loop_body E (filename_mapping d) u t = Inr t'"
    have sub: "set (tl (remaining_urls t)) \<subseteq> set (unique_urls d)" "u \<in> set (unique_urls d)"
      using inv rem by auto
    from body show "?I t'"
      by (cases rule: loop_body_cases) (use inv sub in auto)
  qed
  moreover have "set (unique_urls d) \<subseteq> set (persisted_urls f)"
  proof (cases f)
    case (Text t)
    with run process_text_again(3)[of E t d f'] show ?thesis
      by (simp add: persisted_urls_def set_first_occurrences)
  qed (use run in \<open>auto simp: process_url_file_def\<close>)
  ultimately show ?run by blast
next
  show "?hyp \<longrightarrow> ?step"
  proof
    assume hyp: ?hyp
    then obtain t' where body: "loop_body E fm l t = Inr t'"
      by (simp add: loop_body_def)
    from body have "\<exists>n. 1 \<le> n \<and> n \<le> 4 \<and> fetches (trace t') = fetches (trace t) @ replicate n l"
    proof (cases rule: loop_body_cases)
      case (skip file_name)
      with hyp show ?thesis by simp
    next
      case (success file_name k)
      then show ?thesis
        by (intro exI[of _ "Suc k"]) (simp add: max_retries_def replicate_append_same)
    next
      case (failure file_name)
      then show ?thesis
        by (intro exI[of _ 4]) (simp add: max_retries_def numeral_eq_Suc)
    qed
    with body show ?step by blast
  qed
qed

theorem only_lines_fetched_witness:
  "(\<exists>r s. download_files_from_urls (run_env no_hash (always Completed)) (Text after_success) {}
            = Inr (r, s)
         \<and> set (fetches (trace s)) \<subseteq> set (persisted_urls (Text after_success))
         \<and> ''https://x/T1-F1/download/a.pdf'' \<notin> set (fetches (trace s)))
   \<and> (\<exists>t' n. loop_body (run_env no_hash (always Completed)) Map.empty
                ''[FAILED] https://x/T1-F1/download/a.pdf''
                (initial_state [''[FAILED] https://x/T1-F1/download/a.pdf''] (Text after_success) {})
              = Inr t'
           \<and> 1 \<le> n \<and> n \<le> 4
           \<and> fetches (trace t') = replicate n ''[FAILED] https://x/T1-F1/download/a.pdf'')"
proof -
  let ?E = "run_env no_hash (always Completed)"
  let ?l = "''[FAILED] https://x/T1-F1/download/a.pdf''"
  let ?t = "initial_state [?l] (Text after_success) {}"
  have "(case download_files_from_urls ?E (Text after_success) {} of
           Inl _ \<Rightarrow> False | Inr (r, s) \<Rightarrow> True)"
    by code_simp
  then obtain r s where run: "download_files_from_urls ?E (Text after_success) {} = Inr (r, s)"
    by (auto split: sum.splits)
  have lines: "persisted_urls (Text after_success) = [''https://x/T2-F2/download/b.pdf'']"
    by code_simp
  have hyp: "resolve_file_name ?E Map.empty ?l = Inr ''a.pdf''
             \<and> \<not> path_exists (dir_entries ?t) ''a.pdf''"
    by code_simp
  note res = only_lines_fetched[OF run, of Map.empty ?l "''a.pdf''" ?t]
  from res have sub: "set (fetches (trace s)) \<subseteq> set (persisted_urls (Text after_success))"
    by blast
  then have "''https://x/T1-F1/download/a.pdf'' \<notin> set (fetches (trace s))"
    unfolding lines by auto
  moreover from res hyp obtain t' n where "loop_body ?E Map.empty ?l ?t = Inr t'"
    "1 \<le> n" "n \<le> 4" "fetches (trace t') = fetches (trace ?t) @ replicate n ?l"
    by blast
  ultimately show ?thesis
    using run sub by (auto simp: initial_state_def)
qed

text \<open>
  Claim C3 as stated fails: a marked line is attempted again. A run over a work file that
  holds one marked line calls \<^verbatim>\<open>requests.get\<close> four times with the whole line, counts a
  failure and writes the line back behind a second marker.
\<close>

theorem marked_line_is_fetched:
  "fetches (trace (snd (projr marked_run))) = [marked_line, marked_line, marked_line, marked_line]
   \<and> fst (projr marked_run) = (0, 1)
   \<and> work_file (snd (projr marked_run)) = Text (''[FAILED] '' @ marked_line @ [LF])"
  by code_simp

section \<open>The marker of a failed URL\<close>

text \<open>
  Claim C1 does not hold for the code: the line of a permanently failed URL is written
  once, and the next rewrite of the work file drops it. With two URLs, the first failing
  four times and the second downloaded at once, the run counts one success and one
  failure, writes the marked line and the second URL, then writes the empty list: the
  work file ends empty and the failed URL is lost.
\<close>

theorem failed_marker_is_overwritten:
  "fst (projr lost_marker_run) = (1, 1)
   \<and> writes (trace (snd (projr lost_marker_run)))
       = [''[FAILED] https://x/T1-F1/download/a.pdf\<newline>https://x/T2-F2/download/b.pdf\<newline>'', []]
   \<and> work_file (snd (projr lost_marker_run)) = Text []"
  by code_simp

section \<open>The count of the URL Extractor\<close>

text \<open>
  Claim C8. \<^verbatim>\<open>extract_urls_from_json\<close> always returns. When the input file is missing,
  does not hold valid JSON or raises otherwise on reading, it prints one error line,
  returns 0 and leaves the output file alone. When the input loads, the count returned is the number of URLs collected,
  and the output file is the old one with exactly these URLs appended, one line each;
  with no URL it is not touched, and an absent file is created by the first URL.
\<close>

theorem extract_count:
  shows "(loaded = File_not_found \<or> loaded = Invalid_JSON \<or> loaded = Other_exception e
            \<longrightarrow> (\<exists>message. extract_urls_from_json py_str file_path loaded out = (0, out, [message])
                   \<and> message \<noteq> []))
       \<and> (loaded = Loaded data
            \<longrightarrow> (\<exists>lines out'. extract_urls_from_json py_str file_path loaded out
                                = (length lines, out', [])
                   \<and> lines = map (format_url py_str) (extracted_urls data)
                   \<and> (out = Absent \<longrightarrow> out' = (if lines = [] then Absent else Text (write_urls lines)))
                   \<and> (out = Text old \<longrightarrow> out' = Text (old @ write_urls lines))))"
  by (auto simp: extract_urls_from_json_def append_text_def Let_def write_urls_def)

theorem extract_count_witness:
  "extract_urls_from_json unused_str ''export.json'' File_not_found (Text ''u\<newline>'')
     = (0, Text ''u\<newline>'', [''Error: File export.json not found''])
   \<and> extract_urls_from_json unused_str ''export.json'' Invalid_JSON Absent
     = (0, Absent, [''Error: export.json contains invalid JSON''])
   \<and> extract_urls_from_json unused_str ''export.json'' (Loaded two_attachments) (Text ''u\<newline>'')
     = (2, Text ''u\<newline>https://x/T1-F1/download/report.pdf\<newline>https://x/T2-F2/download/report.pdf\<newline>'', [])"
proof -
  have lines: "map (format_url unused_str) (extracted_urls two_attachments)
                 = [''https://x/T1-F1/download/report.pdf'', ''https://x/T2-F2/download/report.pdf'']"
    by (simp add: two_attachments_def extracted_urls_def urls_of_item_def urls_of_file_info_def
        format_url_def)
  have a: "extract_urls_from_json unused_str ''export.json'' File_not_found (Text ''u\<newline>'')
             = (0, Text ''u\<newline>'', [''Error: File export.json not found''])"
    using extract_count[where loaded = File_not_found and py_str = unused_str
        and file_path = "''export.json''" and out = "Text ''u\<newline>''"]
    by (auto simp: extract_urls_from_json_def)
  have b: "extract_urls_from_json unused_str ''export.json'' Invalid_JSON Absent
             = (0, Absent, [''Error: export.json contains invalid JSON''])"
    using extract_count[where loaded = Invalid_JSON and py_str = unused_str
        and file_path = "''export.json''" and out = Absent]
    by (auto simp: extract_urls_from_json_def)
  have c: "extract_urls_from_json unused_str ''export.json'' (Loaded two_attachments) (Text ''u\<newline>'')
     = (2, Text ''u\<newline>https://x/T1-F1/download/report.pdf\<newline>https://x/T2-F2/download/report.pdf\<newline>'', [])"
    using extract_count[where loaded = "Loaded two_attachments" and py_str = unused_str
        and file_path = "''export.json''" and out = "Text ''u\<newline>''"
        and data = two_attachments and old = "''u\<newline>''"]
    unfolding lines by (auto simp: write_urls_def LF_def)
  from a b c show ?thesis by blast
qed

end
